theory Spec2Isabelle
  imports Main "HOL-Library.Monad_Syntax" "HOL-Library.Sublist"
begin

section \<open>JavaScript numbers\<close>

text \<open>
  Every number that \<open>primeFactorize\<close>, \<open>groupFactors\<close> and the history operations
  compute with is an integer-valued double; such a number is modelled by the
  \<^typ>\<open>int\<close> it denotes. \<open>Number.MAX_SAFE_INTEGER\<close> is \<open>2^53 - 1\<close>.
\<close>

definition MAX_SAFE_INTEGER :: int where
  "MAX_SAFE_INTEGER = 2 ^ 53 - 1"

text \<open>
  The one value of the program that is not an integer is the result of \<open>Math.sqrt\<close>.
  It is a binary64 number, written here as a significand over a power of two:
  \<open>Float m k\<close> denotes \<open>m / 2^k\<close>.
\<close>

datatype float = NaN | Float int nat

text \<open>The integer square root (rounded down), by one binary digit per call.\<close>

function isqrt :: "int \<Rightarrow> int" where
  "isqrt n =
     (if n \<le> 0 then 0
      else let r = 2 * isqrt (n div 4)
           in if (r + 1) * (r + 1) \<le> n then r + 1 else r)"
  by pat_completeness auto
termination
  by (relation "measure nat") auto

declare isqrt.simps [simp del]

text \<open>The binary exponent of the square root of \<open>n\<close>: the \<open>e\<close> with \<open>4^e \<le> n < 4^(e+1)\<close>.\<close>

function sqrt_exponent :: "int \<Rightarrow> nat" where
  "sqrt_exponent n = (if n < 4 then 0 else Suc (sqrt_exponent (n div 4)))"
  by pat_completeness auto
termination
  by (relation "measure nat") auto

declare sqrt_exponent.simps [simp del]

text \<open>
  \<open>Math.sqrt(n)\<close> for an integer argument: NaN below zero, and otherwise the
  binary64 number nearest to the real square root (IEEE 754 \<open>squareRoot\<close>, rounded to
  nearest). For \<open>1 \<le> n < 2^53\<close> the root lies in \<open>[2^e, 2^(e+1))\<close> with
  \<open>e = sqrt_exponent n \<le> 26\<close>, where binary64 numbers are the multiples of
  \<open>2^(e-52)\<close>; the significand is the integer nearest to \<open>sqrt (n * 4^(52-e))\<close>, and a
  square root of an integer is never halfway between two integers. Arguments from
  \<open>2^53\<close> on never reach \<open>Math.sqrt\<close> in this program (line 9 returns before).
  ECMAScript leaves the precision of \<open>Math.sqrt\<close> to the implementation; the
  engines compute it with the correctly rounded operation, and that is what every result
  below about the loop of line 21 rests on.
\<close>

definition Math_sqrt :: "int \<Rightarrow> float" where
  "Math_sqrt n =
     (if n < 0 then NaN
      else if n = 0 then Float 0 0
      else let k = 52 - sqrt_exponent n;
               N = n * 4 ^ k;
               s = isqrt N;
               m = (if s * s + s < N then s + 1 else s)
           in Float m k)"

text \<open>\<open>i <= x\<close> for an integer \<open>i\<close> and a binary64 \<open>x\<close>; a comparison with NaN is false.\<close>

fun less_eq_float :: "int \<Rightarrow> float \<Rightarrow> bool" where
  "less_eq_float i NaN = False"
| "less_eq_float i (Float m k) = (i * 2 ^ k \<le> m)"

section \<open>primeFactorize\<close>

text \<open>
  The loops of lines 15--18 (with \<open>d = 2\<close>) and 22--25 (with \<open>d = i\<close>):
  \<^verbatim>\<open>while (n % d === 0) { factors.push(d); n = n / d; }\<close>
  The quotient is taken only when the remainder is zero, where \<open>n / d\<close> is the integer
  \<open>n div d\<close>; \<open>n % d\<close> takes the sign of \<open>n\<close>, and is zero exactly when
  \<open>n mod d\<close> is. The loop does not end for \<open>n = 0\<close>, so the result is an option and
  \<open>None\<close> stands for a run without end.
\<close>

partial_function (option) divide_out :: "int \<Rightarrow> int \<Rightarrow> int list \<Rightarrow> (int \<times> int list) option" where
  "divide_out n d factors =
     (if n mod d = 0 then divide_out (n div d) d (factors @ [d])
      else Some (n, factors))"

declare divide_out.simps [code]

text \<open>
  The loop of lines 21--26:
  \<^verbatim>\<open>for (let i = 3; i <= Math.sqrt(n); i += 2) { while (n % i === 0) ... }\<close>
\<close>

partial_function (option) trial_division :: "int \<Rightarrow> int \<Rightarrow> int list \<Rightarrow> (int \<times> int list) option" where
  "trial_division n i factors =
     (if less_eq_float i (Math_sqrt n)
      then do { (n', factors') \<leftarrow> divide_out n i factors;
                trial_division n' (i + 2) factors' }
      else Some (n, factors))"

declare trial_division.simps [code]

definition primeFactorize :: "int \<Rightarrow> int list option" where
  "primeFactorize num =
     (if num < 2 then Some []
      else if num > MAX_SAFE_INTEGER then Some []
      else do { (n, factors) \<leftarrow> divide_out num 2 [];
                (n, factors) \<leftarrow> trial_division n 3 factors;
                Some (if n > 1 then factors @ [n] else factors) })"

text \<open>
  The control points of \<open>primeFactorize\<close> with the values of \<open>n\<close>, \<open>i\<close> and
  \<open>factors\<close> there: the head of the loop of line 15, the test of the loop of line 21,
  the head of the loop of line 22, and the return. \<open>reach num p\<close> holds when the run of
  \<open>primeFactorize(num)\<close> passes \<open>p\<close>. The two rules that divide are the only places
  where the program divides.
\<close>

datatype point =
    While2 int "int list"
  | For int int "int list"
  | WhileI int int "int list"
  | Return "int list"

inductive reach :: "int \<Rightarrow> point \<Rightarrow> bool" for num :: int where
  below: "num < 2 \<Longrightarrow> reach num (Return [])"
| above: "\<not> num < 2 \<Longrightarrow> num > MAX_SAFE_INTEGER \<Longrightarrow> reach num (Return [])"
| start: "\<not> num < 2 \<Longrightarrow> \<not> num > MAX_SAFE_INTEGER \<Longrightarrow> reach num (While2 num [])"
| divide2: "reach num (While2 n factors) \<Longrightarrow> n mod 2 = 0
     \<Longrightarrow> reach num (While2 (n div 2) (factors @ [2]))"
| leave2: "reach num (While2 n factors) \<Longrightarrow> n mod 2 \<noteq> 0 \<Longrightarrow> reach num (For n 3 factors)"
| enter: "reach num (For n i factors) \<Longrightarrow> less_eq_float i (Math_sqrt n)
     \<Longrightarrow> reach num (WhileI n i factors)"
| divideI: "reach num (WhileI n i factors) \<Longrightarrow> n mod i = 0
     \<Longrightarrow> reach num (WhileI (n div i) i (factors @ [i]))"
| leaveI: "reach num (WhileI n i factors) \<Longrightarrow> n mod i \<noteq> 0
     \<Longrightarrow> reach num (For n (i + 2) factors)"
| leave: "reach num (For n i factors) \<Longrightarrow> \<not> less_eq_float i (Math_sqrt n)
     \<Longrightarrow> reach num (Return (if n > 1 then factors @ [n] else factors))"

text \<open>What the functional model still computes from a control point on.\<close>

fun continue :: "point \<Rightarrow> int list option" where
  "continue (While2 n factors) =
     do { (n, factors) \<leftarrow> divide_out n 2 factors;
          (n, factors) \<leftarrow> trial_division n 3 factors;
          Some (if n > 1 then factors @ [n] else factors) }"
| "continue (For n i factors) =
     do { (n, factors) \<leftarrow> trial_division n i factors;
          Some (if n > 1 then factors @ [n] else factors) }"
| "continue (WhileI n i factors) =
     do { (n, factors) \<leftarrow> divide_out n i factors;
          (n, factors) \<leftarrow> trial_division n (i + 2) factors;
          Some (if n > 1 then factors @ [n] else factors) }"
| "continue (Return factors) = Some factors"

text \<open>
  Exact arithmetic at a control point: the current value and the candidate divisor
  are integers in the safe range, a division taken there has an integer quotient that
  multiplies back to the dividend, the next candidate \<open>i + 2\<close> is in the safe range,
  and the comparison with the rounded square root decides \<open>i * i \<le> n\<close>.
\<close>

fun exact_arithmetic :: "point \<Rightarrow> bool" where
  "exact_arithmetic (While2 n factors) =
     (1 \<le> n \<and> n \<le> MAX_SAFE_INTEGER \<and>
      (n mod 2 = 0 \<longrightarrow> 1 \<le> n div 2 \<and> n div 2 \<le> MAX_SAFE_INTEGER \<and> (n div 2) * 2 = n))"
| "exact_arithmetic (For n i factors) =
     (1 \<le> n \<and> n \<le> MAX_SAFE_INTEGER \<and> 3 \<le> i \<and> i \<le> MAX_SAFE_INTEGER \<and>
      (less_eq_float i (Math_sqrt n) \<longleftrightarrow> i * i \<le> n))"
| "exact_arithmetic (WhileI n i factors) =
     (1 \<le> n \<and> n \<le> MAX_SAFE_INTEGER \<and> 3 \<le> i \<and> i + 2 \<le> MAX_SAFE_INTEGER \<and>
      (n mod i = 0 \<longrightarrow> 1 \<le> n div i \<and> n div i \<le> MAX_SAFE_INTEGER \<and> (n div i) * i = n))"
| "exact_arithmetic (Return factors) =
     (\<forall>f \<in> set factors. 2 \<le> f \<and> f \<le> MAX_SAFE_INTEGER)"

text \<open>
  What holds at each control point: the remaining value is a positive safe integer,
  odd once the factor 2 is divided out; the candidate divisor is odd and at least 3,
  with a square in the safe range inside the loop of line 22; the factors found are
  safe integers from 2 on.
\<close>

fun loop_invariant :: "point \<Rightarrow> bool" where
  "loop_invariant (While2 n fs) =
     (1 \<le> n \<and> n \<le> MAX_SAFE_INTEGER \<and> (\<forall>f \<in> set fs. 2 \<le> f \<and> f \<le> MAX_SAFE_INTEGER))"
| "loop_invariant (For n i fs) =
     (1 \<le> n \<and> n \<le> MAX_SAFE_INTEGER \<and> odd n \<and> odd i \<and> 3 \<le> i \<and> i \<le> MAX_SAFE_INTEGER
      \<and> (\<forall>f \<in> set fs. 2 \<le> f \<and> f \<le> MAX_SAFE_INTEGER))"
| "loop_invariant (WhileI n i fs) =
     (1 \<le> n \<and> n \<le> MAX_SAFE_INTEGER \<and> odd n \<and> odd i \<and> 3 \<le> i \<and> i * i \<le> MAX_SAFE_INTEGER
      \<and> (\<forall>f \<in> set fs. 2 \<le> f \<and> f \<le> MAX_SAFE_INTEGER))"
| "loop_invariant (Return fs) = (\<forall>f \<in> set fs. 2 \<le> f \<and> f \<le> MAX_SAFE_INTEGER)"

text \<open>A prime number: at least 2 and without a divisor strictly between 1 and itself.\<close>

definition is_prime :: "int \<Rightarrow> bool" where
  "is_prime p \<longleftrightarrow> 2 \<le> p \<and> (\<forall>d \<in> {2..<p}. \<not> d dvd p)"

subsection \<open>The algorithm as the specification words it\<close>

text \<open>
  Divide out the factor \<open>d\<close> while divisible, appending \<open>d\<close> for each division.
\<close>

partial_function (option) spec_divide_out :: "int \<Rightarrow> int \<Rightarrow> int list \<Rightarrow> (int \<times> int list) option" where
  "spec_divide_out remaining d result =
     (if d dvd remaining then spec_divide_out (remaining div d) d (result @ [d])
      else Some (remaining, result))"

declare spec_divide_out.simps [code]

text \<open>
  Test odd candidate divisors \<open>d\<close>, incrementing by 2, while \<open>d * d \<le> remaining\<close>,
  dividing out each occurrence of \<open>d\<close> before advancing \<open>d\<close>.
\<close>

partial_function (option) spec_odd_divisors :: "int \<Rightarrow> int \<Rightarrow> int list \<Rightarrow> (int \<times> int list) option" where
  "spec_odd_divisors remaining d result =
     (if d * d \<le> remaining
      then do { (remaining', result') \<leftarrow> spec_divide_out remaining d result;
                spec_odd_divisors remaining' (d + 2) result' }
      else Some (remaining, result))"

declare spec_odd_divisors.simps [code]

text \<open>
  First the factor 2, then the odd candidates from 3, finally the remaining value once
  if it exceeds 1; the empty sequence outside the valid domain.
\<close>

definition spec_factorize :: "int \<Rightarrow> int list option" where
  "spec_factorize n =
     (if n < 2 \<or> n > MAX_SAFE_INTEGER then Some []
      else do { (remaining, result) \<leftarrow> spec_divide_out n 2 [];
                (remaining, result) \<leftarrow> spec_odd_divisors remaining 3 result;
                Some (if remaining > 1 then result @ [remaining] else result) })"

section \<open>groupFactors\<close>

record grouped =
  prime :: int
  exponent :: int

text \<open>
  The loop of lines 45--53 over \<open>factors[1..]\<close>, with the variables \<open>currentPrime\<close>,
  \<open>exponent\<close> and \<open>grouped\<close>; line 55 pushes the last group when the loop ends.
\<close>

fun group_loop :: "int list \<Rightarrow> int \<Rightarrow> int \<Rightarrow> grouped list \<Rightarrow> grouped list" where
  "group_loop [] currentPrime e acc = acc @ [\<lparr>prime = currentPrime, exponent = e\<rparr>]"
| "group_loop (f # rest) currentPrime e acc =
     (if f = currentPrime then group_loop rest currentPrime (e + 1) acc
      else group_loop rest f 1 (acc @ [\<lparr>prime = currentPrime, exponent = e\<rparr>]))"

fun groupFactors :: "int list \<Rightarrow> grouped list" where
  "groupFactors [] = []"
| "groupFactors (f # rest) = group_loop rest f 1 []"

text \<open>Each prime repeated exponent times, concatenated in the order of the groups.\<close>

definition expand :: "grouped list \<Rightarrow> int list" where
  "expand gs = concat (map (\<lambda>g. replicate (nat (exponent g)) (prime g)) gs)"

section \<open>The display string\<close>

text \<open>
  \<open>Number.prototype.toString\<close> on an integer of absolute value below \<open>10^21\<close>: the
  decimal digits, after a minus sign for a negative number.
\<close>

function digits :: "int \<Rightarrow> string" where
  "digits n = (if n < 10 then [''0123456789'' ! nat n]
               else digits (n div 10) @ [''0123456789'' ! nat (n mod 10)])"
  by pat_completeness auto
termination
  by (relation "measure nat") auto

declare digits.simps [simp del]

definition toString :: "int \<Rightarrow> string" where
  "toString n = (if n < 0 then ''-'' @ digits (- n) else digits n)"

text \<open>\<open>Array.prototype.join\<close> on an array of strings.\<close>

fun join :: "string \<Rightarrow> string list \<Rightarrow> string" where
  "join sep [] = []"
| "join sep [x] = x"
| "join sep (x # y # ys) = x @ sep @ join sep (y # ys)"

text \<open>
  The separator of line 121: a space, the multiplication sign U+00D7, a space.
\<close>

definition separator :: string where
  "separator = [CHR '' '', CHR 0xD7, CHR '' '']"

text \<open>The callback of line 120 and the expression of lines 119--121.\<close>

definition render :: "grouped \<Rightarrow> string" where
  "render g = (if exponent g > 1 then toString (prime g) @ ''^'' @ toString (exponent g)
               else toString (prime g))"

definition formatFactorization :: "grouped list \<Rightarrow> string" where
  "formatFactorization groupedResult = join separator (map render groupedResult)"

section \<open>The application state and the history\<close>

text \<open>
  What \<open>parseInt\<close> can return: NaN, an integer, or an infinity (for a digit string
  too long for a double).
\<close>

datatype parsed = NotANumber | Integer int | PlusInfinity | MinusInfinity

text \<open>
  The three error messages of lines 91, 98 and 105: no valid number, below two,
  too large.
\<close>

datatype message = InvalidNumber | BelowTwo | TooLarge

record history_record =
  number :: int
  factorization :: string

record app_state =
  inputValue :: string
  currentNumber :: "parsed option"
  factors :: "int list"
  groupedFactors :: "grouped list"
  error :: "message option"
  calculationHistory :: "history_record list"
  darkMode :: bool

text \<open>The updater of line 123: \<^verbatim>\<open>prev => [...prev, { number, factorization }]\<close>.\<close>

definition append_history :: "int \<Rightarrow> string \<Rightarrow> history_record list \<Rightarrow> history_record list" where
  "append_history num factorizationString prev =
     prev @ [\<lparr>number = num, factorization = factorizationString\<rparr>]"

text \<open>The updater of line 128: \<^verbatim>\<open>prev => prev.filter((_, i) => i !== index)\<close>.\<close>

definition removeAt :: "int \<Rightarrow> 'a list \<Rightarrow> 'a list" where
  "removeAt index prev = map snd (filter (\<lambda>(i, _). int i \<noteq> index) (enumerate 0 prev))"

text \<open>The three error branches of \<open>handleFactorize\<close> differ in the message only.\<close>

definition reject :: "message \<Rightarrow> app_state \<Rightarrow> app_state" where
  "reject msg s = s\<lparr>error := Some msg, factors := [], groupedFactors := []\<rparr>"

text \<open>
  \<open>handleFactorize\<close> (lines 86--124). \<open>parseInt\<close> is the built-in, with radix 10,
  taken as a parameter. The tests of lines 90, 97 and 104 are \<open>isNaN(num)\<close>,
  \<open>num < 2\<close> and \<open>num > Number.MAX_SAFE_INTEGER\<close>, in this order.
\<close>

definition handleFactorize :: "(string \<Rightarrow> parsed) \<Rightarrow> app_state \<Rightarrow> app_state option" where
  "handleFactorize parseInt s =
     (let num = parseInt (inputValue s);
          s = s\<lparr>currentNumber := Some num\<rparr>
      in case num of
           NotANumber \<Rightarrow> Some (reject InvalidNumber s)
         | MinusInfinity \<Rightarrow> Some (reject BelowTwo s)
         | PlusInfinity \<Rightarrow> Some (reject TooLarge s)
         | Integer n \<Rightarrow>
             if n < 2 then Some (reject BelowTwo s)
             else if n > MAX_SAFE_INTEGER then Some (reject TooLarge s)
             else do {
               factorsResult \<leftarrow> primeFactorize n;
               let groupedResult = groupFactors factorsResult;
                   factorizationString = formatFactorization groupedResult
               in Some (s\<lparr>error := None, factors := factorsResult,
                          groupedFactors := groupedResult,
                          calculationHistory :=
                            append_history n factorizationString (calculationHistory s)\<rparr>) })"

definition removeFromHistory :: "int \<Rightarrow> app_state \<Rightarrow> app_state" where
  "removeFromHistory index s = s\<lparr>calculationHistory := removeAt index (calculationHistory s)\<rparr>"

text \<open>\<open>recalculate\<close> (lines 132--139), called with the number of a history record.\<close>

definition recalculate :: "int \<Rightarrow> app_state \<Rightarrow> app_state option" where
  "recalculate num s =
     do { factorsResult \<leftarrow> primeFactorize num;
          Some (s\<lparr>inputValue := toString num, currentNumber := Some (Integer num),
                  factors := factorsResult, groupedFactors := groupFactors factorsResult,
                  error := None\<rparr>) }"

definition clearInput :: "app_state \<Rightarrow> app_state" where
  "clearInput s = s\<lparr>inputValue := [], error := None\<rparr>"

definition toggleDarkMode :: "app_state \<Rightarrow> app_state" where
  "toggleDarkMode s = s\<lparr>darkMode := \<not> darkMode s\<rparr>"

text \<open>
  Every operation that writes the state: the handlers bound in the view (lines 153,
  174, 180, 186, 231 and 236) and the colour scheme listener of line 74.
\<close>

datatype operation =
    HandleFactorize
  | RemoveFromHistory int
  | Recalculate int
  | ClearInput
  | ToggleDarkMode
  | SetInputValue string
  | SetDarkMode bool

fun perform :: "(string \<Rightarrow> parsed) \<Rightarrow> operation \<Rightarrow> app_state \<Rightarrow> app_state option" where
  "perform parseInt HandleFactorize s = handleFactorize parseInt s"
| "perform parseInt (RemoveFromHistory index) s = Some (removeFromHistory index s)"
| "perform parseInt (Recalculate num) s = recalculate num s"
| "perform parseInt ClearInput s = Some (clearInput s)"
| "perform parseInt ToggleDarkMode s = Some (toggleDarkMode s)"
| "perform parseInt (SetInputValue v) s = Some (s\<lparr>inputValue := v\<rparr>)"
| "perform parseInt (SetDarkMode b) s = Some (s\<lparr>darkMode := b\<rparr>)"

text \<open>The state of a fresh page (lines 61--69), with the colour scheme of the system.\<close>

definition initial_state :: "bool \<Rightarrow> app_state" where
  "initial_state dark =
     \<lparr>inputValue = [], currentNumber = None, factors = [], groupedFactors = [],
      error = None, calculationHistory = [], darkMode = dark\<rparr>"

text \<open>
  An input that \<open>handleFactorize\<close> accepts: numeric, at least 2 and at most
  \<open>MAX_SAFE_INTEGER\<close>.
\<close>

fun valid_input :: "parsed \<Rightarrow> bool" where
  "valid_input (Integer n) = (2 \<le> n \<and> n \<le> MAX_SAFE_INTEGER)"
| "valid_input _ = False"

text \<open>A group as the specification renders it: the bare prime for exponent 1.\<close>

definition spec_render :: "grouped \<Rightarrow> string" where
  "spec_render g = (if exponent g = 1 then toString (prime g)
                    else toString (prime g) @ ''^'' @ toString (exponent g))"

section \<open>The rounded square root\<close>

lemma isqrt_bounds:
  "0 \<le> n \<Longrightarrow> 0 \<le> isqrt n \<and> isqrt n * isqrt n \<le> n \<and> n < (isqrt n + 1) * (isqrt n + 1)"
proof (induction n rule: isqrt.induct)
  case (1 n)
  show ?case
  proof (cases "n \<le> 0")
    case True
    then have "isqrt n = 0" by (subst isqrt.simps) simp
    with True "1.prems" show ?thesis by simp
  next
    case False
    define t where "t = isqrt (n div 4)"
    from False "1.prems" have q: "0 \<le> n div 4" by simp
    from "1.IH" [OF False q] have t: "0 \<le> t" "t * t \<le> n div 4" "n div 4 < (t + 1) * (t + 1)"
      by (simp_all add: t_def)
    have lo: "(2 * t) * (2 * t) \<le> n"
    proof -
      have "4 * (t * t) \<le> 4 * (n div 4)" using t(2) by simp
      also have "\<dots> \<le> n" by simp
      finally show ?thesis by simp
    qed
    have hi: "n < (2 * t + 2) * (2 * t + 2)"
    proof -
      have "n div 4 + 1 \<le> (t + 1) * (t + 1)" using t(3) by simp
      then have "4 * (n div 4) + 4 \<le> 4 * ((t + 1) * (t + 1))" by simp
      moreover have "n < 4 * (n div 4) + 4" by simp
      ultimately have "n < 4 * ((t + 1) * (t + 1))" by linarith
      then show ?thesis by (simp add: algebra_simps)
    qed
    have eq: "isqrt n = (if (2 * t + 1) * (2 * t + 1) \<le> n then 2 * t + 1 else 2 * t)"
      using False by (subst isqrt.simps) (simp add: t_def Let_def)
    show ?thesis
    proof (cases "(2 * t + 1) * (2 * t + 1) \<le> n")
      case True
      with eq have "isqrt n = 2 * t + 1" by simp
      with True hi t(1) show ?thesis by (simp add: algebra_simps)
    next
      case F: False
      with eq have "isqrt n = 2 * t" by simp
      with F lo t(1) show ?thesis by (simp add: algebra_simps)
    qed
  qed
qed

lemma sqrt_exponent_bounds:
  "1 \<le> n \<Longrightarrow> 4 ^ sqrt_exponent n \<le> n \<and> n < 4 * 4 ^ sqrt_exponent n"
proof (induction n rule: sqrt_exponent.induct)
  case (1 n)
  show ?case
  proof (cases "n < 4")
    case True
    with "1.prems" show ?thesis by (subst (1 2) sqrt_exponent.simps) simp
  next
    case False
    then have q: "1 \<le> n div 4" by simp
    from "1.IH" [OF False q]
    have ih: "4 ^ sqrt_exponent (n div 4) \<le> n div 4" "n div 4 < 4 * 4 ^ sqrt_exponent (n div 4)"
      by simp_all
    have e: "sqrt_exponent n = Suc (sqrt_exponent (n div 4))"
      using False by (subst sqrt_exponent.simps) simp
    have "4 * 4 ^ sqrt_exponent (n div 4) \<le> 4 * (n div 4)" using ih(1) by simp
    also have "\<dots> \<le> n" by simp
    finally have lo: "4 ^ sqrt_exponent n \<le> n" by (simp add: e)
    have "n div 4 + 1 \<le> 4 * 4 ^ sqrt_exponent (n div 4)" using ih(2) by simp
    then have "4 * (n div 4) + 4 \<le> 4 * (4 * 4 ^ sqrt_exponent (n div 4))" by simp
    moreover have "n < 4 * (n div 4) + 4" by simp
    ultimately have "n < 4 * 4 ^ sqrt_exponent n" by (simp add: e)
    with lo show ?thesis by simp
  qed
qed

lemma sqrt_exponent_safe:
  assumes "1 \<le> n" "n \<le> MAX_SAFE_INTEGER"
  shows "sqrt_exponent n \<le> 26"
proof (rule ccontr)
  assume "\<not> sqrt_exponent n \<le> 26"
  then have "27 \<le> sqrt_exponent n" by simp
  then have "(4::int) ^ 27 \<le> 4 ^ sqrt_exponent n" by (rule power_increasing) simp
  also have "\<dots> \<le> n" using sqrt_exponent_bounds [OF assms(1)] by simp
  finally show False using assms(2) by (simp add: MAX_SAFE_INTEGER_def)
qed


lemma Math_sqrt_Float:
  assumes "1 \<le> n"
  shows "\<exists>m. Math_sqrt n = Float m (52 - sqrt_exponent n) \<and> 0 \<le> m
           \<and> m * m - m < n * 4 ^ (52 - sqrt_exponent n)
           \<and> n * 4 ^ (52 - sqrt_exponent n) \<le> m * m + m"
proof -
  define N where "N = n * 4 ^ (52 - sqrt_exponent n)"
  define s where "s = isqrt N"
  have N1: "1 \<le> N"
  proof -
    have "0 < N" using assms by (simp add: N_def)
    then show ?thesis by simp
  qed
  then have "0 \<le> N" by simp
  from isqrt_bounds [OF this]
  have s: "0 \<le> s" "s * s \<le> N" "N < (s + 1) * (s + 1)" by (simp_all add: s_def)
  have s1: "1 \<le> s"
  proof (rule ccontr)
    assume "\<not> 1 \<le> s"
    with s(1) have "s = 0" by simp
    with s(3) N1 show False by simp
  qed
  define m where "m = (if s * s + s < N then s + 1 else s)"
  have eq: "Math_sqrt n = Float m (52 - sqrt_exponent n)"
    using assms by (simp add: Math_sqrt_def Let_def m_def s_def N_def)
  have "0 \<le> m" using s(1) by (simp add: m_def)
  moreover have "m * m - m < N"
  proof (cases "s * s + s < N")
    case True
    then show ?thesis by (simp add: m_def algebra_simps)
  next
    case False
    have "s * s - s < s * s" using s1 by simp
    with s(2) False show ?thesis by (simp add: m_def)
  qed
  moreover have "N \<le> m * m + m"
  proof (cases "s * s + s < N")
    case True
    have "(s + 1) * (s + 1) \<le> (s + 1) * (s + 1) + (s + 1)" using s(1) by simp
    with s(3) True show ?thesis by (simp add: m_def)
  next
    case False
    then show ?thesis by (simp add: m_def)
  qed
  ultimately show ?thesis using eq by (auto simp: N_def)
qed


text \<open>
  The model is the correctly rounded root: the significand has 53 bits, and the value
  is less than half a unit in the last place away from the real square root.
\<close>

lemma Math_sqrt_binary64:
  assumes "1 \<le> n" "n \<le> MAX_SAFE_INTEGER"
  shows "\<exists>m k. Math_sqrt n = Float m k \<and> k \<le> 52 \<and> 2 ^ 52 \<le> m \<and> m \<le> 2 ^ 53
           \<and> (2 * m - 1) * (2 * m - 1) < 4 * (n * 4 ^ k)
           \<and> 4 * (n * 4 ^ k) < (2 * m + 1) * (2 * m + 1)"
proof -
  define e where "e = sqrt_exponent n"
  define k where "k = 52 - e"
  define N where "N = n * 4 ^ k"
  have e26: "e \<le> 26" using sqrt_exponent_safe [OF assms] by (simp add: e_def)
  have ek: "e + k = 52" using e26 by (simp add: k_def)
  have p4: "(4::int) ^ e * 4 ^ k = 4 ^ 52" unfolding power_add [symmetric] ek ..
  from Math_sqrt_Float [OF assms(1)] obtain m
    where m: "Math_sqrt n = Float m k" "0 \<le> m" "m * m - m < N" "N \<le> m * m + m"
    by (auto simp: k_def e_def N_def)
  have "4 ^ e \<le> n" "n < 4 * 4 ^ e"
    using sqrt_exponent_bounds [OF assms(1)] by (simp_all add: e_def)
  then have "4 ^ e * 4 ^ k \<le> n * 4 ^ k" "n * 4 ^ k < (4 * 4 ^ e) * 4 ^ k"
    by (simp_all add: mult_right_mono)
  then have lo: "4 ^ 52 \<le> N" and hi: "N < 4 ^ 53"
    using p4 by (simp_all add: N_def mult.assoc)
  have m_lo: "2 ^ 52 \<le> m"
  proof (rule ccontr)
    assume "\<not> 2 ^ 52 \<le> m"
    then have a: "m \<le> 2 ^ 52 - 1" by simp
    with m(2) have "m * (m + 1) \<le> (2 ^ 52 - 1) * (2 ^ 52 - 1 + 1)"
      by (intro mult_mono) simp_all
    then have "m * m + m < 4 ^ 52" by (simp add: algebra_simps)
    with m(4) lo show False by simp
  qed
  have m_hi: "m \<le> 2 ^ 53"
  proof (rule ccontr)
    assume "\<not> m \<le> 2 ^ 53"
    then have a: "2 ^ 53 + 1 \<le> m" by simp
    then have "(2 ^ 53 + 1) * ((2::int) ^ 53 + 1 - 1) \<le> m * (m - 1)"
      by (intro mult_mono) simp_all
    then have "(4::int) ^ 53 \<le> m * m - m" by (simp add: algebra_simps)
    with m(3) hi show False by simp
  qed
  have "(2 * m - 1) * (2 * m - 1) = 4 * (m * m - m) + 1" by (simp add: algebra_simps)
  with m(3) have r_lo: "(2 * m - 1) * (2 * m - 1) < 4 * N" by simp
  have "(2 * m + 1) * (2 * m + 1) = 4 * (m * m + m) + 1" by (simp add: algebra_simps)
  with m(4) have r_hi: "4 * N < (2 * m + 1) * (2 * m + 1)" by simp
  have "k \<le> 52" by (simp add: k_def)
  with m(1) m_lo m_hi r_lo r_hi show ?thesis unfolding N_def by blast
qed

lemma sqrt_comparison:
  assumes n: "1 \<le> n" "n \<le> MAX_SAFE_INTEGER" and odd: "odd n" "odd i" and i: "0 \<le> i"
  shows "less_eq_float i (Math_sqrt n) \<longleftrightarrow> i * i \<le> n"
proof -
  define e where "e = sqrt_exponent n"
  define k where "k = 52 - e"
  define N where "N = n * 4 ^ k"
  define I where "I = i * 2 ^ k"
  have e26: "e \<le> 26" using sqrt_exponent_safe [OF n] by (simp add: e_def)
  from Math_sqrt_Float [OF n(1)] obtain m
    where m: "Math_sqrt n = Float m k" "0 \<le> m" "m * m - m < N" "N \<le> m * m + m"
    by (auto simp: k_def e_def N_def)
  have cmp: "less_eq_float i (Math_sqrt n) \<longleftrightarrow> I \<le> m"
    by (simp add: m(1) I_def)
  have four: "(4::int) ^ k = 2 ^ k * 2 ^ k"
    by (simp add: power_mult_distrib [symmetric])
  have II: "I * I = (i * i) * 4 ^ k"
    by (simp add: I_def four algebra_simps)
  have I0: "0 \<le> I" using i by (simp add: I_def)
  have N1: "0 < N" using n(1) by (simp add: N_def)
  have ek: "e + k = 52" using e26 by (simp add: k_def)
  have p4: "(4::int) ^ e * 4 ^ k = 4 ^ 52" unfolding power_add [symmetric] ek ..
  have p2: "(2::int) ^ e * 2 ^ k = 2 ^ 52" unfolding power_add [symmetric] ek ..
  show ?thesis
  proof
    assume "less_eq_float i (Math_sqrt n)"
    with cmp have Im: "I \<le> m" by simp
    show "i * i \<le> n"
    proof (rule ccontr)
      assume "\<not> i * i \<le> n"
      then have lt: "n < i * i" by simp
      have "odd (i * i)" using odd(2) by simp
      with odd(1) have "even (i * i - n)" by simp
      with lt have "n + 2 \<le> i * i" by presburger
      then have "(n + 2) * 4 ^ k \<le> (i * i) * 4 ^ k" by (rule mult_right_mono) simp
      then have big: "N + 2 * 4 ^ k \<le> I * I" by (simp add: II N_def algebra_simps)
      have "(0::int) < 2 * 4 ^ k" by simp
      with N1 have "0 < N + 2 * 4 ^ k" by (rule add_pos_pos)
      with big have "I \<noteq> 0" by auto
      with I0 have I1: "0 \<le> I - 1" by simp
      moreover from Im have "I - 1 \<le> m - 1" by simp
      ultimately have "I * (I - 1) \<le> m * (m - 1)" using Im I0 by (intro mult_mono) simp_all
      then have "I * I - I \<le> m * m - m" by (simp add: algebra_simps)
      with m(3) have "I * I - I < N" by simp
      with big have "2 * 4 ^ k < I" by simp
      then have "2 * 2 ^ k * 2 ^ k < i * 2 ^ k" by (simp add: four I_def algebra_simps)
      then have ilow: "2 * 2 ^ k < i" by simp
      have "n < 4 * 4 ^ e"
        using sqrt_exponent_bounds [OF n(1)] by (simp add: e_def)
      then have "n * 4 ^ k < (4 * 4 ^ e) * 4 ^ k" by (rule mult_strict_right_mono) simp
      also have "\<dots> = 4 * (4 ^ e * 4 ^ k)" by (simp only: mult.assoc)
      also have "\<dots> = 4 ^ 53" unfolding p4 by simp
      finally have N53: "N < 4 ^ 53" by (simp only: N_def)
      have m53: "m \<le> 2 ^ 53"
      proof (rule ccontr)
        assume "\<not> m \<le> 2 ^ 53"
        then have a: "2 ^ 53 + 1 \<le> m" by simp
        then have "(2 ^ 53 + 1) * ((2::int) ^ 53 + 1 - 1) \<le> m * (m - 1)"
          by (intro mult_mono) simp_all
        then have "(4::int) ^ 53 \<le> m * m - m" by (simp add: algebra_simps)
        with m(3) N53 show False by simp
      qed
      have "i * 2 ^ k \<le> 2 ^ 53" using Im m53 by (simp only: I_def)
      also have "(2::int) ^ 53 = 2 * (2 ^ e * 2 ^ k)" unfolding p2 by simp
      also have "\<dots> = (2 * 2 ^ e) * 2 ^ k" by (simp only: mult.assoc)
      finally have "i \<le> 2 * 2 ^ e" by (simp only: mult_le_cancel_right) simp
      with ilow have "2 * (2::int) ^ k < 2 * 2 ^ e" by (rule less_le_trans)
      then have "(2::int) ^ k < 2 ^ e" by simp
      then have "k < e" by simp
      with e26 show False by (simp add: k_def)
    qed
  next
    assume "i * i \<le> n"
    then have "(i * i) * 4 ^ k \<le> n * 4 ^ k" by (rule mult_right_mono) simp
    then have le: "I * I \<le> N" by (simp add: II N_def)
    show "less_eq_float i (Math_sqrt n)"
    proof (rule ccontr)
      assume "\<not> less_eq_float i (Math_sqrt n)"
      with cmp have "m + 1 \<le> I" by simp
      then have "(m + 1) * (m + 1) \<le> I * I" using m(2) by (intro mult_mono) simp_all
      with le have "m * m + 2 * m + 1 \<le> N" by (simp add: algebra_simps)
      with m(4) m(2) show False by simp
    qed
  qed
qed

section \<open>Correctness of primeFactorize\<close>

lemma divide_out_total:
  assumes "1 \<le> n" "2 \<le> d"
  shows "\<exists>n' k. divide_out n d fs = Some (n', fs @ replicate k d) \<and> n = n' * d ^ k
           \<and> 1 \<le> n' \<and> \<not> d dvd n'"
  using assms
proof (induction "nat n" arbitrary: n fs rule: less_induct)
  case less
  show ?case
  proof (cases "n mod d = 0")
    case False
    then have "divide_out n d fs = Some (n, fs @ replicate 0 d)"
      by (subst divide_out.simps) simp
    moreover from False have "\<not> d dvd n" by (simp add: dvd_eq_mod_eq_0)
    ultimately show ?thesis using less.prems(1) 
      by (intro exI [of _ n] exI [of _ 0]) simp
  next
    case True
    then have dvd: "d dvd n" by (simp add: dvd_eq_mod_eq_0)
    then have nq: "n = (n div d) * d" by simp
    have q1: "1 \<le> n div d"
      using less.prems dvd by (simp add: pos_imp_zdiv_pos_iff zdvd_imp_le)
    have "n div d < n" using less.prems by (simp add: int_div_less_self)
    then have "nat (n div d) < nat n" using q1 by simp
    from less.hyps [OF this q1 less.prems(2), of "fs @ [d]"] obtain n' k
      where ih: "divide_out (n div d) d (fs @ [d]) = Some (n', (fs @ [d]) @ replicate k d)"
        "n div d = n' * d ^ k" "1 \<le> n'" "\<not> d dvd n'" by blast
    have "divide_out n d fs = divide_out (n div d) d (fs @ [d])"
      using True by (subst divide_out.simps) simp
    with ih(1) have "divide_out n d fs = Some (n', fs @ replicate (Suc k) d)"
      by (simp add: replicate_append_same)
    moreover have "n = n' * d ^ Suc k" using nq ih(2) by simp
    ultimately show ?thesis using ih(3,4) by blast
  qed
qed

lemma no_small_divisor_prime:
  assumes "1 < n" "n < i * i" "0 \<le> i" and small: "\<forall>d. 2 \<le> d \<and> d < i \<longrightarrow> \<not> d dvd n"
  shows "is_prime n"
  unfolding is_prime_def
proof (intro conjI ballI notI)
  show "2 \<le> n" using assms(1) by simp
next
  fix d assume d: "d \<in> {2..<n}" and "d dvd n"
  then obtain q where q: "n = d * q" by (auto simp: dvd_def)
  have "0 < d * q" using q assms(1) by simp
  moreover have "0 < d" using d by simp
  ultimately have "0 < q" by (simp add: zero_less_mult_iff)
  have "q \<noteq> 1" using q d by auto
  with \<open>0 < q\<close> have q2: "2 \<le> q" by simp
  have "q dvd n" using q by simp
  with small q2 have qi: "i \<le> q" by force
  from small d \<open>d dvd n\<close> have di: "i \<le> d" by force
  from di qi assms(3) have "i * i \<le> d * q" by (intro mult_mono) simp_all
  with q assms(2) show False by simp
qed


lemma trial_division_total:
  assumes "1 \<le> n" "n \<le> MAX_SAFE_INTEGER" "odd n" "odd i" "3 \<le> i"
    and small: "\<forall>d. 2 \<le> d \<and> d < i \<longrightarrow> \<not> d dvd n"
  shows "\<exists>n' gs. trial_division n i fs = Some (n', fs @ gs) \<and> n = n' * prod_list gs
           \<and> (\<forall>p \<in> set gs. is_prime p \<and> i \<le> p) \<and> sorted gs \<and> 1 \<le> n'
           \<and> (n' \<noteq> 1 \<longrightarrow> is_prime n' \<and> i \<le> n' \<and> (\<forall>p \<in> set gs. p \<le> n'))"
  using assms
proof (induction "nat (n + 1 - i)" arbitrary: n i fs rule: less_induct)
  case less
  have cmp: "less_eq_float i (Math_sqrt n) \<longleftrightarrow> i * i \<le> n"
    using less.prems by (intro sqrt_comparison) simp_all
  show ?case
  proof (cases "i * i \<le> n")
    case False
    then have run: "trial_division n i fs = Some (n, fs @ [])"
      using cmp by (subst trial_division.simps) simp
    have "n \<noteq> 1 \<longrightarrow> is_prime n \<and> i \<le> n"
    proof
      assume "n \<noteq> 1"
      with less.prems(1) have n2: "1 < n" by simp
      from False have "n < i * i" by simp
      with n2 less.prems(5,6) have "is_prime n" by (intro no_small_divisor_prime) simp_all
      moreover have "i \<le> n"
      proof (rule ccontr)
        assume "\<not> i \<le> n"
        with n2 have "2 \<le> n \<and> n < i" by simp
        with less.prems(6) have "\<not> n dvd n" by blast
        then show False by simp
      qed
      ultimately show "is_prime n \<and> i \<le> n" by simp
    qed
    with run less.prems(1) show ?thesis by (intro exI [of _ n] exI [of _ "[]"]) simp
  next
    case True
    have i2: "2 \<le> i" using less.prems(5) by simp
    from divide_out_total [OF less.prems(1) i2, of fs] obtain n1 k
      where d: "divide_out n i fs = Some (n1, fs @ replicate k i)" "n = n1 * i ^ k"
        "1 \<le> n1" "\<not> i dvd n1" by blast
    have n1_dvd: "n1 dvd n" using d(2) by simp
    have n1_le: "n1 \<le> n" using n1_dvd less.prems(1) by (simp add: zdvd_imp_le)
    have odd1: "odd n1" using n1_dvd less.prems(3) by (meson dvd_trans)
    have small1: "\<forall>d. 2 \<le> d \<and> d < i + 2 \<longrightarrow> \<not> d dvd n1"
    proof (intro allI impI notI)
      fix c assume c: "2 \<le> c \<and> c < i + 2" and cd: "c dvd n1"
      consider "c < i" | "c = i" | "c = i + 1" using c by linarith
      then show False
      proof cases
        case 1
        with c cd n1_dvd less.prems(6) show False by (meson dvd_trans)
      next
        case 2
        with cd d(4) show False by simp
      next
        case 3
        then have "even c" using less.prems(4) by simp
        with cd odd1 show False by (meson dvd_trans)
      qed
    qed
    have "i \<le> i * i" using less.prems(5) by (simp add: self_le_power [where n = 2, simplified power2_eq_square])
    with True have "i \<le> n" by simp
    with n1_le have decr: "nat (n1 + 1 - (i + 2)) < nat (n + 1 - i)" by simp
    have n1_safe: "n1 \<le> MAX_SAFE_INTEGER" using n1_le less.prems(2) by simp
    have oddi: "odd (i + 2)" using less.prems(4) by simp
    have i3: "3 \<le> i + 2" using less.prems(5) by simp
    note ih = less.hyps [OF decr d(3) n1_safe odd1 oddi i3 small1]
    from ih [of "fs @ replicate k i"] obtain n' gs
      where r: "trial_division n1 (i + 2) (fs @ replicate k i) = Some (n', (fs @ replicate k i) @ gs)"
        "n1 = n' * prod_list gs" "\<forall>p \<in> set gs. is_prime p \<and> i + 2 \<le> p" "sorted gs" "1 \<le> n'"
        "n' \<noteq> 1 \<longrightarrow> is_prime n' \<and> i + 2 \<le> n' \<and> (\<forall>p \<in> set gs. p \<le> n')" by blast
    have run: "trial_division n i fs = Some (n', fs @ (replicate k i @ gs))"
      using True cmp d(1) r(1) by (subst trial_division.simps) simp
    have prod: "n = n' * prod_list (replicate k i @ gs)"
      using d(2) r(2) by simp
    have prime_i: "is_prime i" if "0 < k"
    proof -
      from that have "i dvd n" using d(2) by (cases k) simp_all
      have "\<not> c dvd i" if "c \<in> {2..<i}" for c
      proof
        assume "c dvd i"
        then have "c dvd n" using \<open>i dvd n\<close> by (rule dvd_trans)
        with that less.prems(6) show False by simp
      qed
      with i2 show ?thesis by (simp add: is_prime_def)
    qed
    have primes: "\<forall>p \<in> set (replicate k i @ gs). is_prime p \<and> i \<le> p"
      using prime_i r(3) by (auto simp: set_replicate_conv_if split: if_splits)
    have srt: "sorted (replicate k i @ gs)"
      using r(3,4) by (auto simp: sorted_append)
    have last: "n' \<noteq> 1 \<longrightarrow> is_prime n' \<and> i \<le> n' \<and> (\<forall>p \<in> set (replicate k i @ gs). p \<le> n')"
      using r(6) by (auto simp: set_replicate_conv_if split: if_splits)
    from run prod primes srt r(5) last show ?thesis by blast
  qed
qed


lemma is_prime_2: "is_prime 2"
  by (simp add: is_prime_def)

lemma primeFactorize_run:
  assumes "2 \<le> num" "num \<le> MAX_SAFE_INTEGER"
  shows "\<exists>n k gs. primeFactorize num = Some ((replicate k 2 @ gs) @ (if n > 1 then [n] else []))
           \<and> num = n * prod_list (replicate k 2 @ gs) \<and> 1 \<le> n
           \<and> (\<forall>p \<in> set gs. is_prime p \<and> 3 \<le> p) \<and> sorted gs
           \<and> (n \<noteq> 1 \<longrightarrow> is_prime n \<and> 3 \<le> n \<and> (\<forall>p \<in> set gs. p \<le> n))"
proof -
  have num1: "1 \<le> num" using assms(1) by simp
  from divide_out_total [OF num1, of 2 "[]"] obtain n1 k
    where d: "divide_out num 2 [] = Some (n1, replicate k 2)" "num = n1 * 2 ^ k" "1 \<le> n1" "odd n1"
    by auto
  have "n1 dvd num" using d(2) by simp
  then have "n1 \<le> num" using num1 by (simp add: zdvd_imp_le)
  with assms(2) have safe: "n1 \<le> MAX_SAFE_INTEGER" by simp
  have small: "\<forall>c. 2 \<le> c \<and> c < 3 \<longrightarrow> \<not> c dvd n1"
  proof (intro allI impI)
    fix c :: int assume "2 \<le> c \<and> c < 3"
    then have "c = 2" by simp
    with d(4) show "\<not> c dvd n1" by simp
  qed
  from trial_division_total [OF d(3) safe d(4) _ _ small, of "replicate k 2"] obtain n gs
    where t: "trial_division n1 3 (replicate k 2) = Some (n, replicate k 2 @ gs)"
      "n1 = n * prod_list gs" "\<forall>p \<in> set gs. is_prime p \<and> 3 \<le> p" "sorted gs" "1 \<le> n"
      "n \<noteq> 1 \<longrightarrow> is_prime n \<and> 3 \<le> n \<and> (\<forall>p \<in> set gs. p \<le> n)"
    by auto
  have "primeFactorize num = Some ((replicate k 2 @ gs) @ (if n > 1 then [n] else []))"
    using assms d(1) t(1) by (simp add: primeFactorize_def)
  moreover have "num = n * prod_list (replicate k 2 @ gs)"
    using d(2) t(2) by simp
  ultimately show ?thesis using t(3,4,5,6) by blast
qed

text \<open>
  Claim C1. For every integer \<open>n\<close> with \<open>2 \<le> n \<le> MAX_SAFE_INTEGER\<close>,
  \<open>primeFactorize(n)\<close> returns, and the returned sequence multiplies together to
  exactly \<open>n\<close>, every element of it is a prime number, and it is sorted in ascending
  order.
\<close>

theorem primeFactorize_correct:
  assumes "2 \<le> n" "n \<le> MAX_SAFE_INTEGER"
  shows "\<exists>factors. primeFactorize n = Some factors \<and> prod_list factors = n
           \<and> (\<forall>p \<in> set factors. is_prime p) \<and> sorted factors"
proof -
  from primeFactorize_run [OF assms] obtain r k gs
    where run: "primeFactorize n = Some ((replicate k 2 @ gs) @ (if r > 1 then [r] else []))"
      and prod: "n = r * prod_list (replicate k 2 @ gs)" and r1: "1 \<le> r"
      and gs: "\<forall>p \<in> set gs. is_prime p \<and> 3 \<le> p" "sorted gs"
      and r: "r \<noteq> 1 \<longrightarrow> is_prime r \<and> 3 \<le> r \<and> (\<forall>p \<in> set gs. p \<le> r)"
    by blast
  define factors where "factors = (replicate k 2 @ gs) @ (if r > 1 then [r] else [])"
  have "prod_list factors = n"
    using prod r1 by (auto simp: factors_def)
  moreover have "\<forall>p \<in> set factors. is_prime p"
    using gs(1) r is_prime_2 by (auto simp: factors_def set_replicate_conv_if split: if_splits)
  moreover have "sorted factors"
    using gs r by (auto simp: factors_def sorted_append set_replicate_conv_if split: if_splits)
  ultimately show ?thesis using run by (simp add: factors_def)
qed

theorem primeFactorize_correct_witness:
  "(2::int) \<le> 360 \<and> 360 \<le> MAX_SAFE_INTEGER \<and>
   (\<exists>factors. primeFactorize 360 = Some factors \<and> prod_list factors = 360
      \<and> (\<forall>p \<in> set factors. is_prime p) \<and> sorted factors)"
  using primeFactorize_correct [of 360] by (simp add: MAX_SAFE_INTEGER_def)

text \<open>
  Claim C2. For every integer \<open>n < 2\<close> and for every integer \<open>n\<close> greater than
  \<open>MAX_SAFE_INTEGER\<close>, \<open>primeFactorize(n)\<close> returns the empty sequence: it
  returns (no exception, no run without end), and the empty result is the only signal.
\<close>

theorem primeFactorize_invalid:
  assumes "n < 2 \<or> n > MAX_SAFE_INTEGER"
  shows "primeFactorize n = Some []"
  using assms by (auto simp: primeFactorize_def)

theorem primeFactorize_invalid_witness:
  "primeFactorize 1 = Some [] \<and> primeFactorize 0 = Some [] \<and> primeFactorize (- 5) = Some []
   \<and> primeFactorize (MAX_SAFE_INTEGER + 1) = Some []"
  using primeFactorize_invalid [of 1] primeFactorize_invalid [of 0] primeFactorize_invalid [of "- 5"]
    primeFactorize_invalid [of "MAX_SAFE_INTEGER + 1"]
  by simp

section \<open>groupFactors and the display string\<close>

lemma expand_append: "expand (xs @ ys) = expand xs @ expand ys"
  by (simp add: expand_def)

lemma expand_group_loop:
  "0 \<le> e \<Longrightarrow> expand (group_loop fs c e acc) = expand acc @ replicate (nat e) c @ fs"
proof (induction fs arbitrary: c e acc)
  case Nil
  then show ?case by (simp add: expand_def)
next
  case (Cons f fs)
  show ?case
  proof (cases "f = c")
    case True
    have "nat (e + 1) = Suc (nat e)" using Cons.prems by simp
    with True Cons.IH [of "e + 1" c acc] Cons.prems show ?thesis
      by (simp add: replicate_app_Cons_same)
  next
    case False
    with Cons.IH [of 1 f "acc @ [\<lparr>prime = c, exponent = e\<rparr>]"] show ?thesis
      by (simp add: expand_append) (simp add: expand_def)
  qed
qed

lemma group_loop_exponents:
  "1 \<le> e \<Longrightarrow> \<forall>g \<in> set acc. 1 \<le> exponent g
     \<Longrightarrow> \<forall>g \<in> set (group_loop fs c e acc). 1 \<le> exponent g"
proof (induction fs arbitrary: c e acc)
  case Nil
  then show ?case by simp
next
  case (Cons f fs)
  show ?case
  proof (cases "f = c")
    case True
    have "1 \<le> e + 1" using Cons.prems(1) by simp
    from Cons.IH [OF this Cons.prems(2), of c] True show ?thesis by simp
  next
    case False
    have "\<forall>g \<in> set (acc @ [\<lparr>prime = c, exponent = e\<rparr>]). 1 \<le> exponent g"
      using Cons.prems by simp
    from Cons.IH [OF _ this, of 1 f] False show ?thesis by simp
  qed
qed

lemma groupFactors_exponents: "\<forall>g \<in> set (groupFactors fs). 1 \<le> exponent g"
proof (cases fs)
  case Nil
  then show ?thesis by simp
next
  case (Cons f rest)
  have "\<forall>g \<in> set (group_loop rest f 1 []). 1 \<le> exponent g"
    by (rule group_loop_exponents) simp_all
  with Cons show ?thesis by simp
qed

text \<open>
  Claim C5. For every list of integers given to \<open>groupFactors\<close>: the empty list
  yields the empty output, and concatenating, in output order, each group's prime
  repeated exponent times reproduces the input list exactly. The list is arbitrary, so
  this holds in particular for every result of \<open>primeFactorize\<close>.
\<close>

theorem groupFactors_expand:
  "groupFactors [] = [] \<and> expand (groupFactors fs) = fs"
proof
  show "groupFactors [] = []" by simp
  show "expand (groupFactors fs) = fs"
  proof (cases fs)
    case Nil
    then show ?thesis by (simp add: expand_def)
  next
    case (Cons f rest)
    have "expand (group_loop rest f 1 []) = expand [] @ replicate (nat 1) f @ rest"
      by (rule expand_group_loop) simp
    with Cons show ?thesis by (simp add: expand_def)
  qed
qed

lemma render_spec: "1 \<le> exponent g \<Longrightarrow> render g = spec_render g"
  by (simp add: render_def spec_render_def)

text \<open>
  Claim C6. For every grouped-factor sequence (every exponent is a multiplicity, so at
  least 1; \<open>groupFactors\<close> produces no other, by \<open>groupFactors_exponents\<close>), the
  formatting of lines 119--121 renders each group as the bare prime when its exponent
  equals 1 and as prime^exponent otherwise, and joins the groups with the separator in
  the order of the sequence. Concretely 12 yields the factors 2, 2, 3, the groups
  (2, 2), (3, 1) and the display string for \<open>2^2 x 3\<close>, with U+00D7 for the sign.
\<close>

theorem formatFactorization_spec:
  assumes "\<forall>g \<in> set gs. 1 \<le> exponent g"
  shows "formatFactorization gs = join separator (map spec_render gs)
    \<and> primeFactorize 12 = Some [2, 2, 3]
    \<and> groupFactors [2, 2, 3] = [\<lparr>prime = 2, exponent = 2\<rparr>, \<lparr>prime = 3, exponent = 1\<rparr>]
    \<and> formatFactorization [\<lparr>prime = 2, exponent = 2\<rparr>, \<lparr>prime = 3, exponent = 1\<rparr>]
        = ''2^2 '' @ [CHR 0xD7] @ '' 3''"
proof (intro conjI)
  have "map render gs = map spec_render gs"
    using assms by (intro map_cong refl render_spec) simp
  then show "formatFactorization gs = join separator (map spec_render gs)"
    by (simp only: formatFactorization_def)
  show "primeFactorize 12 = Some [2, 2, 3]" by code_simp
  show "groupFactors [2, 2, 3] = [\<lparr>prime = 2, exponent = 2\<rparr>, \<lparr>prime = 3, exponent = 1\<rparr>]"
    by simp
  show "formatFactorization [\<lparr>prime = 2, exponent = 2\<rparr>, \<lparr>prime = 3, exponent = 1\<rparr>]
        = ''2^2 '' @ [CHR 0xD7] @ '' 3''"
    by code_simp
qed

theorem formatFactorization_spec_witness:
  "formatFactorization [\<lparr>prime = 2, exponent = 2\<rparr>, \<lparr>prime = 5, exponent = 1\<rparr>]
     = join separator (map spec_render [\<lparr>prime = 2, exponent = 2\<rparr>, \<lparr>prime = 5, exponent = 1\<rparr>])
   \<and> 1 \<le> exponent \<lparr>prime = 2, exponent = 2\<rparr> \<and> 1 \<le> exponent \<lparr>prime = 5, exponent = 1\<rparr>"
  using formatFactorization_spec [of "[\<lparr>prime = 2, exponent = 2\<rparr>, \<lparr>prime = 5, exponent = 1\<rparr>]"]
  by simp

section \<open>The history\<close>

lemma removeAt_enumerate:
  "map snd (filter (\<lambda>(j, _). int j \<noteq> i) (enumerate n xs)) =
     (if int n \<le> i \<and> i < int n + int (length xs)
      then take (nat i - n) xs @ drop (Suc (nat i - n)) xs else xs)"
proof (induction xs arbitrary: n)
  case Nil
  then show ?case by simp
next
  case (Cons x xs)
  show ?case
  proof (cases "int n = i")
    case True
    then have "map snd (filter (\<lambda>(j, _). int j \<noteq> i) (enumerate (Suc n) xs)) = xs"
      by (simp add: Cons.IH)
    with True show ?thesis by auto
  next
    case False
    have "int n < i \<Longrightarrow> nat i - n = Suc (nat i - Suc n)" by linarith
    with False show ?thesis by (auto simp: Cons.IH)
  qed
qed

lemma removeAt_in_range:
  "0 \<le> i \<Longrightarrow> i < int (length xs) \<Longrightarrow> removeAt i xs = take (nat i) xs @ drop (Suc (nat i)) xs"
  by (simp add: removeAt_def removeAt_enumerate)

lemma removeAt_out_of_range:
  "\<not> (0 \<le> i \<and> i < int (length xs)) \<Longrightarrow> removeAt i xs = xs"
  by (simp only: removeAt_def removeAt_enumerate) auto

lemma subseq_removeAt: "subseq (removeAt i xs) xs"
proof -
  have "subseq (map snd (filter P (enumerate n xs))) xs" for P and n
    by (induction xs arbitrary: n) auto
  then show ?thesis by (simp add: removeAt_def)
qed


lemma removeAt_shift:
  assumes "0 \<le> index" "index < int (length h)"
  shows "removeAt index h = take (nat index) h @ drop (Suc (nat index)) h"
    and "length (removeAt index h) = length h - 1"
    and "\<forall>j. j < nat index \<longrightarrow> removeAt index h ! j = h ! j"
    and "\<forall>j. nat index \<le> j \<and> j < length h - 1 \<longrightarrow> removeAt index h ! j = h ! Suc j"
proof -
  from assms have k: "nat index < length h" by simp
  show eq: "removeAt index h = take (nat index) h @ drop (Suc (nat index)) h"
    using assms by (rule removeAt_in_range)
  show "length (removeAt index h) = length h - 1" using k by (simp add: eq)
  show "\<forall>j. j < nat index \<longrightarrow> removeAt index h ! j = h ! j"
    using k by (simp add: eq nth_append)
  show "\<forall>j. nat index \<le> j \<and> j < length h - 1 \<longrightarrow> removeAt index h ! j = h ! Suc j"
  proof (intro allI impI)
    fix j assume j: "nat index \<le> j \<and> j < length h - 1"
    have "length (take (nat index) h) = nat index" using k by simp
    then have "removeAt index h ! j = drop (Suc (nat index)) h ! (j - nat index)"
      using j by (simp add: eq nth_append)
    also have "\<dots> = h ! (Suc (nat index) + (j - nat index))"
      using j k by (intro nth_drop) simp
    also have "Suc (nat index) + (j - nat index) = Suc j" using j by simp
    finally show "removeAt index h ! j = h ! Suc j" .
  qed
qed

text \<open>
  Claim C7. For every history list and every index \<open>i\<close>: if \<open>0 \<le> i < length\<close>,
  \<open>removeFromHistory(i)\<close> deletes exactly the record at position \<open>i\<close>, and every
  record after position \<open>i\<close> moves down by exactly one position, the order kept; if
  \<open>i\<close> is out of range the removal changes nothing.
\<close>

theorem removeFromHistory_shift:
  "let h = calculationHistory s; h' = calculationHistory (removeFromHistory index s) in
     (0 \<le> index \<and> index < int (length h) \<longrightarrow>
        h' = take (nat index) h @ drop (Suc (nat index)) h
        \<and> length h' = length h - 1
        \<and> (\<forall>j. j < nat index \<longrightarrow> h' ! j = h ! j)
        \<and> (\<forall>j. nat index \<le> j \<and> j < length h - 1 \<longrightarrow> h' ! j = h ! Suc j))
     \<and> (\<not> (0 \<le> index \<and> index < int (length h)) \<longrightarrow> removeFromHistory index s = s)"
proof -
  have h': "calculationHistory (removeFromHistory index s) = removeAt index (calculationHistory s)"
    by (simp add: removeFromHistory_def)
  have inside: "removeAt index (calculationHistory s)
          = take (nat index) (calculationHistory s) @ drop (Suc (nat index)) (calculationHistory s)
      \<and> length (removeAt index (calculationHistory s)) = length (calculationHistory s) - 1
      \<and> (\<forall>j. j < nat index \<longrightarrow> removeAt index (calculationHistory s) ! j = calculationHistory s ! j)
      \<and> (\<forall>j. nat index \<le> j \<and> j < length (calculationHistory s) - 1
             \<longrightarrow> removeAt index (calculationHistory s) ! j = calculationHistory s ! Suc j)"
    if "0 \<le> index \<and> index < int (length (calculationHistory s))"
    using that removeAt_shift [of index "calculationHistory s"] by blast
  have outside: "removeFromHistory index s = s"
    if "\<not> (0 \<le> index \<and> index < int (length (calculationHistory s)))"
    using removeAt_out_of_range [OF that] by (simp add: removeFromHistory_def)
  show ?thesis unfolding Let_def h' using inside outside by blast
qed

theorem removeFromHistory_shift_witness:
  "(0::int) \<le> 1 \<and> 1 < int (length [\<lparr>number = 4, factorization = ''2^2''\<rparr>,
       \<lparr>number = 5, factorization = ''5''\<rparr>, \<lparr>number = 7, factorization = ''7''\<rparr>])
   \<and> calculationHistory (removeFromHistory 1 (initial_state False\<lparr>calculationHistory :=
         [\<lparr>number = 4, factorization = ''2^2''\<rparr>, \<lparr>number = 5, factorization = ''5''\<rparr>,
          \<lparr>number = 7, factorization = ''7''\<rparr>]\<rparr>))
       = [\<lparr>number = 4, factorization = ''2^2''\<rparr>, \<lparr>number = 7, factorization = ''7''\<rparr>]
   \<and> removeFromHistory 3 (initial_state False\<lparr>calculationHistory :=
         [\<lparr>number = 4, factorization = ''2^2''\<rparr>, \<lparr>number = 5, factorization = ''5''\<rparr>,
          \<lparr>number = 7, factorization = ''7''\<rparr>]\<rparr>)
       = initial_state False\<lparr>calculationHistory :=
         [\<lparr>number = 4, factorization = ''2^2''\<rparr>, \<lparr>number = 5, factorization = ''5''\<rparr>,
          \<lparr>number = 7, factorization = ''7''\<rparr>]\<rparr>"
  using removeFromHistory_shift [of "initial_state False\<lparr>calculationHistory :=
         [\<lparr>number = 4, factorization = ''2^2''\<rparr>, \<lparr>number = 5, factorization = ''5''\<rparr>,
          \<lparr>number = 7, factorization = ''7''\<rparr>]\<rparr>" 1]
    removeFromHistory_shift [of "initial_state False\<lparr>calculationHistory :=
         [\<lparr>number = 4, factorization = ''2^2''\<rparr>, \<lparr>number = 5, factorization = ''5''\<rparr>,
          \<lparr>number = 7, factorization = ''7''\<rparr>]\<rparr>" 3]
  by (simp add: Let_def)

section \<open>The handlers\<close>

lemma primeFactorize_total: "\<exists>fs. primeFactorize n = Some fs"
proof (cases "2 \<le> n \<and> n \<le> MAX_SAFE_INTEGER")
  case True
  with primeFactorize_run [of n] show ?thesis by blast
next
  case False
  then show ?thesis by (auto simp: primeFactorize_def)
qed

text \<open>
  Claim C8. Starting from an empty history, append(12, "2^2 x 3"), then
  append(17, "17"), then removeAt(0) leaves exactly one record, number 17 with
  factorization "17", at position 0: on the two updaters of lines 123 and 128, and on
  the handlers that call them (\<open>handleFactorize\<close> on the inputs 12 and 17 from a fresh
  page, then \<open>removeFromHistory(0)\<close>).
\<close>

theorem history_scenario:
  "removeAt 0 (append_history 17 ''17'' (append_history 12 (''2^2 '' @ [CHR 0xD7] @ '' 3'') []))
     = [\<lparr>number = 17, factorization = ''17''\<rparr>]
   \<and> (do { s1 \<leftarrow> handleFactorize (\<lambda>v. Integer 12) (initial_state dark);
            s2 \<leftarrow> handleFactorize (\<lambda>v. Integer 17) s1;
            Some (calculationHistory s1, calculationHistory s2,
                  calculationHistory (removeFromHistory 0 s2)) })
      = Some ([\<lparr>number = 12, factorization = ''2^2 '' @ [CHR 0xD7] @ '' 3''\<rparr>],
              [\<lparr>number = 12, factorization = ''2^2 '' @ [CHR 0xD7] @ '' 3''\<rparr>,
               \<lparr>number = 17, factorization = ''17''\<rparr>],
              [\<lparr>number = 17, factorization = ''17''\<rparr>])"
proof
  show "removeAt 0 (append_history 17 ''17'' (append_history 12 (''2^2 '' @ [CHR 0xD7] @ '' 3'') []))
     = [\<lparr>number = 17, factorization = ''17''\<rparr>]"
    by (simp add: removeAt_def append_history_def)
  have f12: "primeFactorize 12 = Some [2, 2, 3]" by code_simp
  have f17: "primeFactorize 17 = Some [17]" by code_simp
  have s12: "formatFactorization (groupFactors [2, 2, 3]) = ''2^2 '' @ [CHR 0xD7] @ '' 3''"
    by code_simp
  have s17: "formatFactorization (groupFactors [17]) = ''17''" by code_simp
  have h1: "handleFactorize (\<lambda>v. Integer 12) (initial_state dark) =
    Some ((initial_state dark)\<lparr>currentNumber := Some (Integer 12), error := None,
      factors := [2, 2, 3], groupedFactors := groupFactors [2, 2, 3],
      calculationHistory := [\<lparr>number = 12, factorization = ''2^2 '' @ [CHR 0xD7] @ '' 3''\<rparr>]\<rparr>)"
    by (simp add: handleFactorize_def f12 s12 MAX_SAFE_INTEGER_def append_history_def
        initial_state_def del: groupFactors.simps)
  show "(do { s1 \<leftarrow> handleFactorize (\<lambda>v. Integer 12) (initial_state dark);
            s2 \<leftarrow> handleFactorize (\<lambda>v. Integer 17) s1;
            Some (calculationHistory s1, calculationHistory s2,
                  calculationHistory (removeFromHistory 0 s2)) })
      = Some ([\<lparr>number = 12, factorization = ''2^2 '' @ [CHR 0xD7] @ '' 3''\<rparr>],
              [\<lparr>number = 12, factorization = ''2^2 '' @ [CHR 0xD7] @ '' 3''\<rparr>,
               \<lparr>number = 17, factorization = ''17''\<rparr>],
              [\<lparr>number = 17, factorization = ''17''\<rparr>])"
    unfolding h1
    by (simp add: handleFactorize_def f17 s17 MAX_SAFE_INTEGER_def append_history_def
        removeFromHistory_def removeAt_def del: groupFactors.simps)
qed

text \<open>
  Claim C10. For every number \<open>num\<close>, \<open>recalculate(num)\<close> returns and leaves the
  history list unchanged: it overwrites the input value, the current number, the
  factors, the grouped factors and the error, and nothing else.
\<close>

theorem recalculate_frame:
  "\<exists>s'. recalculate num s = Some s'
     \<and> calculationHistory s' = calculationHistory s
     \<and> inputValue s' = toString num
     \<and> currentNumber s' = Some (Integer num)
     \<and> primeFactorize num = Some (factors s')
     \<and> groupedFactors s' = groupFactors (factors s')
     \<and> error s' = None
     \<and> darkMode s' = darkMode s"
proof -
  from primeFactorize_total [of num] obtain fs where "primeFactorize num = Some fs" ..
  then show ?thesis by (simp add: recalculate_def)
qed

lemma handleFactorize_rejects:
  assumes "\<not> valid_input (parseInt (inputValue s))"
  shows "\<exists>msg. handleFactorize parseInt s =
           Some (reject msg (s\<lparr>currentNumber := Some (parseInt (inputValue s))\<rparr>))"
  using assms
  by (cases "parseInt (inputValue s)") (auto simp: handleFactorize_def Let_def)

lemma handleFactorize_accepts:
  assumes "parseInt (inputValue s) = Integer n" "2 \<le> n" "n \<le> MAX_SAFE_INTEGER"
  shows "\<exists>fs. primeFactorize n = Some fs \<and> handleFactorize parseInt s =
           Some (s\<lparr>currentNumber := Some (Integer n), error := None, factors := fs,
                   groupedFactors := groupFactors fs,
                   calculationHistory := calculationHistory s @
                     [\<lparr>number = n, factorization = formatFactorization (groupFactors fs)\<rparr>]\<rparr>)"
proof -
  from primeFactorize_total [of n] obtain fs where fs: "primeFactorize n = Some fs" ..
  with assms show ?thesis
    by (simp add: handleFactorize_def Let_def append_history_def)
qed

lemma perform_history:
  assumes "perform parseInt operation s = Some s'"
  shows "subseq (calculationHistory s') (calculationHistory s)
         \<or> (\<exists>r. calculationHistory s' = calculationHistory s @ [r])"
proof (cases operation)
  case HandleFactorize
  show ?thesis
  proof (cases "valid_input (parseInt (inputValue s))")
    case True
    then obtain n where n: "parseInt (inputValue s) = Integer n" "2 \<le> n" "n \<le> MAX_SAFE_INTEGER"
      by (cases "parseInt (inputValue s)") simp_all
    from handleFactorize_accepts [of parseInt s n, OF n] assms HandleFactorize show ?thesis by auto
  next
    case False
    from handleFactorize_rejects [of parseInt s, OF False] assms HandleFactorize show ?thesis
      by (auto simp: reject_def)
  qed
next
  case (RemoveFromHistory index)
  with assms have "calculationHistory s' = removeAt index (calculationHistory s)"
    by (auto simp: removeFromHistory_def)
  then show ?thesis by (simp add: subseq_removeAt)
next
  case (Recalculate num)
  with assms have "calculationHistory s' = calculationHistory s"
    by (auto simp: recalculate_def split: bind_splits)
  then show ?thesis by simp
next
  case ClearInput
  with assms show ?thesis by (auto simp: clearInput_def)
next
  case ToggleDarkMode
  with assms show ?thesis by (auto simp: toggleDarkMode_def)
next
  case (SetInputValue v)
  with assms show ?thesis by auto
next
  case (SetDarkMode b)
  with assms show ?thesis by auto
qed

text \<open>
  Claim C9. \<open>handleFactorize\<close> always returns, and it appends a history record if
  and only if the factorization succeeds: on an input that parses to a number from 2
  to \<open>MAX_SAFE_INTEGER\<close> it clears the error and appends one record for that
  number; on an input that is not numeric, below 2 or above \<open>MAX_SAFE_INTEGER\<close> it
  sets an error and leaves the history list as it was. No operation mutates a history
  record in place: after any operation the history is the old one with records
  removed (the others unchanged and in order) or the old one with one record appended.
\<close>

theorem handleFactorize_history:
  "(\<exists>s'. handleFactorize parseInt s = Some s' \<and>
      (if valid_input (parseInt (inputValue s))
       then error s' = None \<and>
            (\<exists>r. calculationHistory s' = calculationHistory s @ [r]
                 \<and> parseInt (inputValue s) = Integer (number r))
       else error s' \<noteq> None \<and> calculationHistory s' = calculationHistory s))
   \<and> (\<forall>operation s'. perform parseInt operation s = Some s' \<longrightarrow>
         subseq (calculationHistory s') (calculationHistory s)
         \<or> (\<exists>r. calculationHistory s' = calculationHistory s @ [r]))"
proof (intro conjI allI impI)
  show "\<exists>s'. handleFactorize parseInt s = Some s' \<and>
      (if valid_input (parseInt (inputValue s))
       then error s' = None \<and>
            (\<exists>r. calculationHistory s' = calculationHistory s @ [r]
                 \<and> parseInt (inputValue s) = Integer (number r))
       else error s' \<noteq> None \<and> calculationHistory s' = calculationHistory s)"
  proof (cases "valid_input (parseInt (inputValue s))")
    case True
    then obtain n where n: "parseInt (inputValue s) = Integer n" "2 \<le> n" "n \<le> MAX_SAFE_INTEGER"
      by (cases "parseInt (inputValue s)") simp_all
    from handleFactorize_accepts [of parseInt s n, OF n] True n(1) show ?thesis by auto
  next
    case False
    from handleFactorize_rejects [of parseInt s, OF False] False show ?thesis
      by (auto simp: reject_def)
  qed
next
  fix operation s'
  assume "perform parseInt operation s = Some s'"
  then show "subseq (calculationHistory s') (calculationHistory s)
         \<or> (\<exists>r. calculationHistory s' = calculationHistory s @ [r])"
    by (rule perform_history)
qed

theorem handleFactorize_history_witness:
  "valid_input (Integer 12) \<and> \<not> valid_input NotANumber \<and> \<not> valid_input (Integer 1)
   \<and> (\<exists>s'. handleFactorize (\<lambda>v. Integer 12) (initial_state False) = Some s' \<and> error s' = None
         \<and> (\<exists>r. calculationHistory s' = [r] \<and> number r = 12))
   \<and> (\<exists>s'. handleFactorize (\<lambda>v. NotANumber) (initial_state False) = Some s' \<and> error s' \<noteq> None
         \<and> calculationHistory s' = [])
   \<and> (\<exists>s'. handleFactorize (\<lambda>v. Integer 1) (initial_state False) = Some s' \<and> error s' \<noteq> None
         \<and> calculationHistory s' = [])
   \<and> perform (\<lambda>v. Integer 12) ClearInput (initial_state False) = Some (clearInput (initial_state False))
   \<and> (subseq (calculationHistory (clearInput (initial_state False)))
             (calculationHistory (initial_state False))
       \<or> (\<exists>r. calculationHistory (clearInput (initial_state False))
                 = calculationHistory (initial_state False) @ [r]))"
proof -
  have v: "valid_input (Integer 12)" "\<not> valid_input NotANumber" "\<not> valid_input (Integer 1)"
    by (simp_all add: MAX_SAFE_INTEGER_def)
  have h: "calculationHistory (initial_state False) = []" by (simp add: initial_state_def)
  have p: "perform (\<lambda>v. Integer 12) ClearInput (initial_state False)
             = Some (clearInput (initial_state False))" by simp
  show ?thesis
    using handleFactorize_history [of "\<lambda>v. Integer 12" "initial_state False"]
      handleFactorize_history [of "\<lambda>v. NotANumber" "initial_state False"]
      handleFactorize_history [of "\<lambda>v. Integer 1" "initial_state False"]
      v h p
    by (auto simp del: perform.simps valid_input.simps)
qed

section \<open>Refinement of the specified algorithm\<close>

lemma spec_divide_out_eq:
  assumes "1 \<le> n" "2 \<le> d"
  shows "spec_divide_out n d fs = divide_out n d fs"
  using assms
proof (induction "nat n" arbitrary: n fs rule: less_induct)
  case less
  show ?case
  proof (cases "d dvd n")
    case False
    then have "n mod d \<noteq> 0" by (simp add: dvd_eq_mod_eq_0)
    with False show ?thesis
      by (subst spec_divide_out.simps, subst divide_out.simps) simp
  next
    case True
    then have m: "n mod d = 0" by (simp add: dvd_eq_mod_eq_0)
    have q1: "1 \<le> n div d"
      using less.prems True by (simp add: pos_imp_zdiv_pos_iff zdvd_imp_le)
    have "n div d < n" using less.prems by (simp add: int_div_less_self)
    then have "nat (n div d) < nat n" using q1 by simp
    from less.hyps [OF this q1 less.prems(2)]
    have "spec_divide_out (n div d) d (fs @ [d]) = divide_out (n div d) d (fs @ [d])" .
    with True m show ?thesis
      by (subst spec_divide_out.simps, subst divide_out.simps) simp
  qed
qed

lemma spec_odd_divisors_eq:
  assumes "1 \<le> n" "n \<le> MAX_SAFE_INTEGER" "odd n" "odd i" "3 \<le> i"
  shows "spec_odd_divisors n i fs = trial_division n i fs"
  using assms
proof (induction "nat (n + 1 - i)" arbitrary: n i fs rule: less_induct)
  case less
  have cmp: "less_eq_float i (Math_sqrt n) \<longleftrightarrow> i * i \<le> n"
    using less.prems by (intro sqrt_comparison) simp_all
  show ?case
  proof (cases "i * i \<le> n")
    case False
    with cmp show ?thesis
      by (subst spec_odd_divisors.simps, subst trial_division.simps) simp
  next
    case True
    have i2: "2 \<le> i" using less.prems(5) by simp
    from divide_out_total [OF less.prems(1) i2, of fs] obtain n1 k
      where d: "divide_out n i fs = Some (n1, fs @ replicate k i)" "n = n1 * i ^ k" "1 \<le> n1"
      by blast
    have sd: "spec_divide_out n i fs = Some (n1, fs @ replicate k i)"
      using spec_divide_out_eq [OF less.prems(1) i2] d(1) by simp
    have n1_dvd: "n1 dvd n" using d(2) by simp
    have n1_le: "n1 \<le> n" using n1_dvd less.prems(1) by (simp add: zdvd_imp_le)
    have odd1: "odd n1" using n1_dvd less.prems(3) by (meson dvd_trans)
    have "i \<le> i * i" using less.prems(5) by simp
    with True have "i \<le> n" by simp
    with n1_le have decr: "nat (n1 + 1 - (i + 2)) < nat (n + 1 - i)" by simp
    have n1_safe: "n1 \<le> MAX_SAFE_INTEGER" using n1_le less.prems(2) by simp
    have oddi: "odd (i + 2)" using less.prems(4) by simp
    have i3: "3 \<le> i + 2" using less.prems(5) by simp
    note ih = less.hyps [OF decr d(3) n1_safe odd1 oddi i3]
    have "spec_odd_divisors n i fs = spec_odd_divisors n1 (i + 2) (fs @ replicate k i)"
      using True sd by (subst spec_odd_divisors.simps) simp
    moreover have "trial_division n i fs = trial_division n1 (i + 2) (fs @ replicate k i)"
      using True cmp d(1) by (subst trial_division.simps) simp
    ultimately show ?thesis using ih by simp
  qed
qed

lemma primeFactorize_eq_spec:
  assumes "2 \<le> n" "n \<le> MAX_SAFE_INTEGER"
  shows "primeFactorize n = spec_factorize n"
proof -
  have n1: "1 \<le> n" using assms(1) by simp
  from divide_out_total [OF n1, of 2 "[]"] obtain r k
    where d: "divide_out n 2 [] = Some (r, replicate k 2)" "n = r * 2 ^ k" "1 \<le> r" "odd r"
    by auto
  have sd: "spec_divide_out n 2 [] = Some (r, replicate k 2)"
    using spec_divide_out_eq [OF n1, of 2 "[]"] d(1) by simp
  have "r dvd n" using d(2) by simp
  then have "r \<le> n" using n1 by (simp add: zdvd_imp_le)
  with assms(2) have safe: "r \<le> MAX_SAFE_INTEGER" by simp
  have "spec_odd_divisors r 3 (replicate k 2) = trial_division r 3 (replicate k 2)"
    using d(3) safe d(4) by (intro spec_odd_divisors_eq) simp_all
  with assms d(1) sd show ?thesis
    by (simp add: primeFactorize_def spec_factorize_def)
qed

section \<open>The control points of a run\<close>

lemma i_le_square: "3 \<le> (i::int) \<Longrightarrow> i + 2 \<le> i * i"
proof -
  assume i: "3 \<le> i"
  then have "3 * i \<le> i * i" by (intro mult_right_mono) simp_all
  with i show ?thesis by linarith
qed

lemma reach_invariant: "reach num p \<Longrightarrow> loop_invariant p"
proof (induction rule: reach.induct)
  case below
  show ?case by simp
next
  case above
  show ?case by simp
next
  case start
  then show ?case by simp
next
  case (divide2 n fs)
  then have "2 dvd n" "1 \<le> n" by (simp_all add: dvd_eq_mod_eq_0)
  then have "1 \<le> n div 2" "n div 2 \<le> n" by presburger+
  with divide2.IH show ?case by (simp add: MAX_SAFE_INTEGER_def)
next
  case (leave2 n fs)
  then have "odd n" by (simp add: odd_iff_mod_2_eq_one)
  with leave2.IH show ?case by (simp add: MAX_SAFE_INTEGER_def)
next
  case (enter n i fs)
  then have inv: "1 \<le> n" "n \<le> MAX_SAFE_INTEGER" "odd n" "odd i" "3 \<le> i" by simp_all
  then have "less_eq_float i (Math_sqrt n) \<longleftrightarrow> i * i \<le> n"
    by (intro sqrt_comparison) simp_all
  with enter.hyps(2) inv(2) have "i * i \<le> MAX_SAFE_INTEGER" by simp
  with enter.IH show ?case by simp
next
  case (divideI n i fs)
  then have inv: "1 \<le> n" "n \<le> MAX_SAFE_INTEGER" "odd n" "odd i" "3 \<le> i"
    "i * i \<le> MAX_SAFE_INTEGER" by simp_all
  from divideI.hyps(2) have dvd: "i dvd n" by (simp add: dvd_eq_mod_eq_0)
  then have nq: "n = (n div i) * i" by simp
  have q1: "1 \<le> n div i" using inv(1,5) dvd by (simp add: pos_imp_zdiv_pos_iff zdvd_imp_le)
  have "n div i dvd n" using nq by (metis dvd_triv_left)
  then have ql: "n div i \<le> n" and qodd: "odd (n div i)"
    using inv(1,3) by (simp add: zdvd_imp_le, meson dvd_trans)
  have "i \<le> i * i" using i_le_square [OF inv(5)] by simp
  with inv(6) have "i \<le> MAX_SAFE_INTEGER" by simp
  with divideI.IH q1 ql qodd inv show ?case by simp
next
  case (leaveI n i fs)
  then have inv: "3 \<le> i" "i * i \<le> MAX_SAFE_INTEGER" by simp_all
  from i_le_square [OF inv(1)] inv(2) have "i + 2 \<le> MAX_SAFE_INTEGER" by simp
  with leaveI.IH show ?case by simp
next
  case (leave n i fs)
  then show ?case by simp
qed

lemma reach_continue: "reach num p \<Longrightarrow> continue p = primeFactorize num"
proof (induction rule: reach.induct)
  case below
  then show ?case by (simp add: primeFactorize_def)
next
  case above
  then show ?case by (simp add: primeFactorize_def)
next
  case start
  then show ?case by (simp add: primeFactorize_def)
next
  case (divide2 n fs)
  have "divide_out n 2 fs = divide_out (n div 2) 2 (fs @ [2])"
    using divide2.hyps(2) by (subst divide_out.simps) simp
  with divide2.IH show ?case by simp
next
  case (leave2 n fs)
  have "divide_out n 2 fs = Some (n, fs)"
    using leave2.hyps(2) by (subst divide_out.simps) simp
  with leave2.IH show ?case by simp
next
  case (enter n i fs)
  have "trial_division n i fs =
          do { (n', fs') \<leftarrow> divide_out n i fs; trial_division n' (i + 2) fs' }"
    using enter.hyps(2) by (subst trial_division.simps) simp
  with enter.IH show ?case by (simp add: split_def)
next
  case (divideI n i fs)
  have "divide_out n i fs = divide_out (n div i) i (fs @ [i])"
    using divideI.hyps(2) by (subst divide_out.simps) simp
  with divideI.IH show ?case by simp
next
  case (leaveI n i fs)
  have "divide_out n i fs = Some (n, fs)"
    using leaveI.hyps(2) by (subst divide_out.simps) simp
  with leaveI.IH show ?case by simp
next
  case (leave n i fs)
  have "trial_division n i fs = Some (n, fs)"
    using leave.hyps(2) by (subst trial_division.simps) simp
  with leave.IH show ?case by simp
qed

lemma invariant_exact: "loop_invariant p \<Longrightarrow> exact_arithmetic p"
proof (cases p)
  case (While2 n fs)
  assume "loop_invariant p"
  with While2 have "1 \<le> n" "n \<le> MAX_SAFE_INTEGER" by simp_all
  moreover have "n mod 2 = 0 \<longrightarrow> 1 \<le> n div 2 \<and> n div 2 \<le> n \<and> n div 2 * 2 = n"
    using \<open>1 \<le> n\<close> by presburger
  ultimately show ?thesis using While2 by auto
next
  case (For n i fs)
  assume "loop_invariant p"
  with For have inv: "1 \<le> n" "n \<le> MAX_SAFE_INTEGER" "odd n" "odd i" "3 \<le> i" "i \<le> MAX_SAFE_INTEGER"
    by simp_all
  then have "less_eq_float i (Math_sqrt n) \<longleftrightarrow> i * i \<le> n"
    by (intro sqrt_comparison) simp_all
  with inv For show ?thesis by simp
next
  case (WhileI n i fs)
  assume "loop_invariant p"
  with WhileI have inv: "1 \<le> n" "n \<le> MAX_SAFE_INTEGER" "3 \<le> i" "i * i \<le> MAX_SAFE_INTEGER"
    by simp_all
  from i_le_square [OF inv(3)] inv(4) have i2: "i + 2 \<le> MAX_SAFE_INTEGER" by simp
  have "1 \<le> n div i \<and> n div i \<le> MAX_SAFE_INTEGER \<and> n div i * i = n" if "n mod i = 0"
  proof -
    from that have dvd: "i dvd n" by (simp add: dvd_eq_mod_eq_0)
    then have nq: "n div i * i = n" by simp
    have q1: "1 \<le> n div i" using inv(1,3) dvd by (simp add: pos_imp_zdiv_pos_iff zdvd_imp_le)
    have "n div i dvd n" using nq by (metis dvd_triv_left)
    then have "n div i \<le> n" using inv(1) by (simp add: zdvd_imp_le)
    with inv(2) q1 nq show ?thesis by simp
  qed
  with inv i2 WhileI show ?thesis by simp
next
  case (Return fs)
  assume "loop_invariant p"
  with Return show ?thesis by simp
qed


text \<open>
  The comparison of line 21 decides \<open>i * i \<le> n\<close> because both numbers are odd
  there (\<open>sqrt_comparison\<close>). For an even value just below the square of an odd
  number above \<open>2^26\<close> the square root rounds up to that number and the two
  conditions differ; the loop never sees such a value, since the factor 2 is divided
  out before.
\<close>

lemma sqrt_comparison_needs_odd:
  "less_eq_float 94906265 (Math_sqrt (94906265 * 94906265 - 1))
   \<and> \<not> (94906265 * 94906265 \<le> 94906265 * 94906265 - (1::int))
   \<and> 94906265 * 94906265 - 1 \<le> MAX_SAFE_INTEGER"
  by code_simp

text \<open>
  Claim C3. For every integer \<open>n\<close> in the valid domain \<open>[2, MAX_SAFE_INTEGER]\<close>,
  \<open>primeFactorize\<close> computes its result by exactly the specified algorithm (divide out
  2 while divisible, then the odd candidates \<open>d = 3, 5, 7, ...\<close> while
  \<open>d * d\<close> is at most the remaining value, each divided out before the next, then
  the remaining value once if it exceeds 1), and it returns. In particular, wherever a
  run on such an \<open>n\<close> evaluates the loop condition \<open>i <= Math.sqrt(n)\<close> of line 21,
  it is equivalent to the specification's condition \<open>d * d \<le> n\<close>.
\<close>

theorem primeFactorize_refines_spec:
  assumes "2 \<le> n" "n \<le> MAX_SAFE_INTEGER"
  shows "primeFactorize n = spec_factorize n
    \<and> (\<exists>fs. primeFactorize n = Some fs)
    \<and> (\<forall>r d fs. reach n (For r d fs) \<longrightarrow> (less_eq_float d (Math_sqrt r) \<longleftrightarrow> d * d \<le> r))"
proof (intro conjI allI impI)
  show "primeFactorize n = spec_factorize n" using assms by (rule primeFactorize_eq_spec)
  show "\<exists>fs. primeFactorize n = Some fs" by (rule primeFactorize_total)
next
  fix r d fs
  assume "reach n (For r d fs)"
  then have "loop_invariant (For r d fs)" by (rule reach_invariant)
  then have "exact_arithmetic (For r d fs)" by (rule invariant_exact)
  then show "less_eq_float d (Math_sqrt r) \<longleftrightarrow> d * d \<le> r" by simp
qed

theorem primeFactorize_refines_spec_witness:
  "(2::int) \<le> 45 \<and> 45 \<le> MAX_SAFE_INTEGER \<and> primeFactorize 45 = spec_factorize 45
   \<and> reach 45 (For 45 3 []) \<and> (less_eq_float 3 (Math_sqrt 45) \<longleftrightarrow> 3 * 3 \<le> (45::int))"
proof -
  have dom: "(2::int) \<le> 45" "45 \<le> MAX_SAFE_INTEGER" by (simp_all add: MAX_SAFE_INTEGER_def)
  then have "reach 45 (While2 45 [])" by (intro reach.start) simp_all
  then have r: "reach 45 (For 45 3 [])" by (rule reach.leave2) simp
  from primeFactorize_refines_spec [OF dom] r dom show ?thesis by blast
qed

text \<open>
  Claim C4. At every control point that a run of \<open>primeFactorize\<close> passes, the
  arithmetic is exact: the remaining value and the candidate divisor are integers in
  the safe range, so the modulus tests and \<open>i += 2\<close> lose nothing; a division is
  taken only where the divisor divides the remaining value, and its quotient is again
  an integer in the safe range; and the comparison with the rounded square root
  decides \<open>i * i \<le> n\<close> correctly. The control points are those of the function:
  what the function still computes from each of them is its result.
\<close>

theorem primeFactorize_exact:
  assumes "reach num p"
  shows "exact_arithmetic p \<and> continue p = primeFactorize num"
proof
  from assms have "loop_invariant p" by (rule reach_invariant)
  then show "exact_arithmetic p" by (rule invariant_exact)
  from assms show "continue p = primeFactorize num" by (rule reach_continue)
qed

theorem primeFactorize_exact_witness:
  "reach 45 (WhileI 15 3 [3]) \<and> exact_arithmetic (WhileI 15 3 [3])
   \<and> continue (WhileI 15 3 [3]) = primeFactorize 45"
proof -
  have "reach 45 (While2 45 [])" by (rule reach.start) (simp_all add: MAX_SAFE_INTEGER_def)
  then have "reach 45 (For 45 3 [])" by (rule reach.leave2) simp
  moreover have "less_eq_float 3 (Math_sqrt 45)" by code_simp
  ultimately have "reach 45 (WhileI 45 3 [])" by (rule reach.enter)
  then have "reach 45 (WhileI (45 div 3) 3 ([] @ [3]))" by (rule reach.divideI) simp
  then have r: "reach 45 (WhileI 15 3 [3])" by simp
  from primeFactorize_exact [OF r] r show ?thesis by simp
qed

end
